theory Spec2Isabelle
  imports Main "HOL-Library.Sublist"
begin

section \<open>Python strings\<close>

text \<open>
  A Python \<open>str\<close> is a list of code points. The model covers the code points U+0000 to
  U+00FF, each a \<open>char\<close> under \<open>Latin\<close>, and two more: U+0130, the capital I with a dot
  above, which is the one code point that \<open>str.lower\<close> turns into two (an \<open>i\<close> and
  U+0307), and U+0307, the combining dot above. So \<open>s.lower()\<close> can be longer than \<open>s\<close>,
  and a position found in \<open>s.lower()\<close> need not be a position of \<open>s\<close>. On these code
  points \<open>str.isspace\<close>, the regular expression class \<open>\s\<close> and \<open>str.strip\<close> agree on the
  twelve characters listed in \<open>is_space\<close>, and \<open>\d\<close> matches the ten ASCII digits.
\<close>

datatype pchar = Latin char | Capital_I_With_Dot | Combining_Dot_Above

type_synonym pstring = "pchar list"

text \<open>A string literal of the source.\<close>

abbreviation str :: "string \<Rightarrow> pstring" where
  "str s \<equiv> map Latin s"

definition is_space :: "pchar \<Rightarrow> bool" where
  "is_space c =
     (case c of
        Latin a \<Rightarrow> of_char a \<in> {9::nat, 10, 11, 12, 13, 28, 29, 30, 31, 32, 133, 160}
      | _ \<Rightarrow> False)"

definition is_digit :: "pchar \<Rightarrow> bool" where
  "is_digit c =
     (case c of
        Latin a \<Rightarrow> 48 \<le> (of_char a :: nat) \<and> (of_char a :: nat) \<le> 57
      | _ \<Rightarrow> False)"

definition is_ascii_letter :: "pchar \<Rightarrow> bool" where
  "is_ascii_letter c =
     (case c of
        Latin a \<Rightarrow>
          (let n = (of_char a :: nat) in (65 \<le> n \<and> n \<le> 90) \<or> (97 \<le> n \<and> n \<le> 122))
      | _ \<Rightarrow> False)"

text \<open>The upper-case letters of U+0000 to U+00FF; each has its lower-case letter 32 places
  further.\<close>

definition is_upper :: "char \<Rightarrow> bool" where
  "is_upper a = (let n = (of_char a :: nat) in
     (65 \<le> n \<and> n \<le> 90) \<or> (192 \<le> n \<and> n \<le> 222 \<and> n \<noteq> 215))"

text \<open>\<open>c.lower()\<close> for one code point.\<close>

definition lower_char :: "pchar \<Rightarrow> pstring" where
  "lower_char c =
     (case c of
        Latin a \<Rightarrow> [Latin (if is_upper a then char_of (of_char a + (32::nat)) else a)]
      | Capital_I_With_Dot \<Rightarrow> [Latin (CHR ''i''), Combining_Dot_Above]
      | Combining_Dot_Above \<Rightarrow> [Combining_Dot_Above])"

text \<open>\<open>s.lower()\<close>\<close>

definition lower :: "pstring \<Rightarrow> pstring" where
  "lower s = concat (map lower_char s)"

text \<open>\<open>s.strip()\<close>\<close>

definition strip :: "pstring \<Rightarrow> pstring" where
  "strip s = rev (dropWhile is_space (rev (dropWhile is_space s)))"

text \<open>\<open>s.find(sub)\<close>: the lowest index at which \<open>sub\<close> occurs, \<open>-1\<close> when there is none.\<close>

fun find_aux :: "pstring \<Rightarrow> pstring \<Rightarrow> nat option" where
  "find_aux sub [] = (if sub = [] then Some 0 else None)"
| "find_aux sub (c # cs) =
     (if prefix sub (c # cs) then Some 0 else map_option Suc (find_aux sub cs))"

definition str_find :: "pstring \<Rightarrow> pstring \<Rightarrow> int" where
  "str_find s sub = (case find_aux sub s of None \<Rightarrow> - 1 | Some i \<Rightarrow> int i)"

text \<open>\<open>sub in s\<close>\<close>

definition str_in :: "pstring \<Rightarrow> pstring \<Rightarrow> bool" where
  "str_in sub s = (find_aux sub s \<noteq> None)"

text \<open>\<open>s.split('\n')\<close>: never the empty list.\<close>

fun split_nl :: "pstring \<Rightarrow> pstring list" where
  "split_nl [] = [[]]"
| "split_nl (c # cs) =
     (if c = (Latin (CHR 0x0A)) then [] # split_nl cs
      else (case split_nl cs of [] \<Rightarrow> [[c]] | l # ls \<Rightarrow> (c # l) # ls))"

text \<open>\<open>'\n'.join(ls)\<close>\<close>

fun join_nl :: "pstring list \<Rightarrow> pstring" where
  "join_nl [] = []"
| "join_nl [l] = l"
| "join_nl (l # ls) = l @ (Latin (CHR 0x0A)) # join_nl ls"

text \<open>\<open>s.replace(old, '')\<close>: every occurrence of \<open>old\<close> is deleted, scanning from the left.\<close>

function str_delete :: "pstring \<Rightarrow> pstring \<Rightarrow> pstring" where
  "str_delete old [] = []"
| "str_delete old (c # cs) =
     (if old \<noteq> [] \<and> prefix old (c # cs) then str_delete old (drop (length old) (c # cs))
      else c # str_delete old cs)"
  by pat_completeness auto
termination
  by (relation "measure (\<lambda>(old, s). length s)") auto

text \<open>\<open>int(ds)\<close> for a string of decimal digits.\<close>

definition digit_val :: "pchar \<Rightarrow> nat" where
  "digit_val c = (case c of Latin a \<Rightarrow> of_char a - 48 | _ \<Rightarrow> 0)"

definition nat_of_digits :: "pstring \<Rightarrow> nat" where
  "nat_of_digits ds = foldl (\<lambda>a c. 10 * a + digit_val c) 0 ds"

section \<open>File names\<close>

text \<open>\<open>re.sub(r'^Lvl \d+\s*', '', s)\<close>\<close>

definition sub_level_prefix :: "pstring \<Rightarrow> pstring" where
  "sub_level_prefix s =
     (if prefix (str ''Lvl '') s \<and> takeWhile is_digit (drop 4 s) \<noteq> []
      then dropWhile is_space (dropWhile is_digit (drop 4 s)) else s)"

text \<open>
  \<open>re.sub(r'\s*_\s*Breaking News English.*$', '', s)\<close>. The dot matches every character
  but the newline, and \<open>$\<close> matches at the end of the string and before a newline that
  ends the string. \<open>attribution_match t\<close> says that the pattern matches at the start of
  \<open>t\<close>; the substitution deletes the leftmost match, after which nothing is left to match.
\<close>

definition attribution_tail :: "pstring \<Rightarrow> bool" where
  "attribution_tail r =
     (let r' = dropWhile (\<lambda>c. c \<noteq> (Latin (CHR 0x0A))) r in r' = [] \<or> r' = [Latin (CHR 0x0A)])"

definition attribution_match :: "pstring \<Rightarrow> bool" where
  "attribution_match t =
     (case dropWhile is_space t of
        [] \<Rightarrow> False
      | c # t2 \<Rightarrow> c = (Latin (CHR ''_'')) \<and>
          (let t3 = dropWhile is_space t2
           in prefix (str ''Breaking News English'') t3 \<and> attribution_tail (drop 21 t3)))"

fun sub_attribution :: "pstring \<Rightarrow> pstring" where
  "sub_attribution [] = []"
| "sub_attribution (c # cs) =
     (if attribution_match (c # cs)
      then (if last (c # cs) = (Latin (CHR 0x0A)) then [Latin (CHR 0x0A)] else [])
      else c # sub_attribution cs)"

text \<open>\<open>re.sub(r'\s+', '-', s)\<close>\<close>

function collapse_ws :: "pstring \<Rightarrow> pstring" where
  "collapse_ws [] = []"
| "collapse_ws (c # cs) =
     (if is_space c then (Latin (CHR ''-'')) # collapse_ws (dropWhile is_space cs)
      else c # collapse_ws cs)"
  by pat_completeness auto
termination
  by (relation "measure length") (auto simp: length_dropWhile_le less_Suc_eq_le)

text \<open>The character class \<open>[a-zA-Z0-9\s-]\<close>.\<close>

definition slug_char :: "pchar \<Rightarrow> bool" where
  "slug_char c = (is_ascii_letter c \<or> is_digit c \<or> is_space c \<or> c = (Latin (CHR ''-'')))"

text \<open>The last two statements of \<open>parse_filename\<close> ("Convert to slug format").\<close>

definition slugify :: "pstring \<Rightarrow> pstring" where
  "slugify clean_name = collapse_ws (strip (lower (filter slug_char clean_name)))"

definition parse_filename :: "pstring \<Rightarrow> pstring" where
  "parse_filename filename =
     slugify (sub_attribution (sub_level_prefix (str_delete (str ''.docx'') filename)))"

section \<open>Content segmentation\<close>

definition instruction_markers :: "pstring list" where
  "instruction_markers =
     [(str ''Write a full sentence''), (str ''Write a full-sentence''), (str ''Answer each question''),
      (str ''Write full sentences''), (str ''In your Vocab Notebook'')]"

text \<open>
  The inner loop of \<open>extract_instruction_and_questions\<close> over \<open>enumerate(lines)\<close>: at
  the first line that contains the marker, the instruction is that line and the questions
  are the lines after it (\<open>lines[i + 1:]\<close>, here the rest of the list).
\<close>

fun scan_lines :: "pstring \<Rightarrow> pstring list \<Rightarrow> (pstring \<times> pstring) option" where
  "scan_lines marker [] = None"
| "scan_lines marker (line # rest) =
     (if str_in (lower marker) (lower line) then Some (strip line, strip (join_nl rest))
      else scan_lines marker rest)"

text \<open>The outer loop over the markers; it starts from \<open>instruction = ''\<close> and
  \<open>questions = homework_content\<close>, which it returns when no marker is found.\<close>

fun extract_loop :: "pstring list \<Rightarrow> pstring \<Rightarrow> pstring \<times> pstring" where
  "extract_loop [] homework_content = ([], homework_content)"
| "extract_loop (marker # markers) homework_content =
     (if str_find (lower homework_content) (lower marker) \<noteq> - 1
      then (case scan_lines marker (split_nl homework_content) of
              Some found \<Rightarrow> found
            | None \<Rightarrow> extract_loop markers homework_content)
      else extract_loop markers homework_content)"

definition extract_instruction_and_questions :: "pstring \<Rightarrow> pstring \<times> pstring" where
  "extract_instruction_and_questions homework_content =
     extract_loop instruction_markers homework_content"

definition parse_level_1_and_3_content ::
    "pstring \<Rightarrow> pstring \<Rightarrow> pstring \<times> pstring \<times> pstring \<times> pstring" where
  "parse_level_1_and_3_content article_text after_homework =
     (case extract_instruction_and_questions after_homework of
        (instruction, questions) \<Rightarrow> (article_text, instruction, questions, []))"

definition writing_prompt_markers :: "pstring list" where
  "writing_prompt_markers =
     [(str ''Free Writing''), (str ''Academic Writing''), (str ''Writing Practice''), (str ''writing practice'')]"

fun find_writing_index :: "pstring list \<Rightarrow> pstring \<Rightarrow> int" where
  "find_writing_index [] after_homework = - 1"
| "find_writing_index (marker # markers) after_homework =
     (let index = str_find (lower after_homework) (lower marker)
      in if index \<noteq> - 1 then index else find_writing_index markers after_homework)"

definition parse_level_6_content ::
    "pstring \<Rightarrow> pstring \<Rightarrow> pstring \<times> pstring \<times> pstring \<times> pstring" where
  "parse_level_6_content article_text after_homework =
     (let writing_index = find_writing_index writing_prompt_markers after_homework
      in if writing_index \<noteq> - 1
         then (let before_writing = strip (take (nat writing_index) after_homework);
                   writing_prompt = strip (drop (nat writing_index) after_homework)
               in case extract_instruction_and_questions before_writing of
                    (instruction, questions) \<Rightarrow>
                      (article_text, instruction, questions, writing_prompt))
         else (case extract_instruction_and_questions after_homework of
                 (instruction, questions) \<Rightarrow> (article_text, instruction, questions, [])))"

definition parse_level_content ::
    "pstring \<Rightarrow> int \<Rightarrow> pstring \<times> pstring \<times> pstring \<times> pstring" where
  "parse_level_content full_text level =
     (if full_text = [] then ([], [], [], [])
      else let homework_index = str_find full_text (str ''Homework:'')
        in if homework_index = - 1 then (strip full_text, [], [], [])
           else let article_text = strip (take (nat homework_index) full_text);
                    after_homework =
                      strip (drop (nat homework_index + length (str ''Homework:'')) full_text)
             in if level = 6 then parse_level_6_content article_text after_homework
                else parse_level_1_and_3_content article_text after_homework)"

section \<open>Documents\<close>

text \<open>
  What \<open>Document(file_path)\<close> gives: \<open>None\<close> when reading the file raises, otherwise the
  texts of the paragraphs of the document, in order.
\<close>

type_synonym docx = "pstring list option"

definition extract_text_from_docx :: "docx \<Rightarrow> pstring" where
  "extract_text_from_docx doc =
     (case doc of
        None \<Rightarrow> []
      | Some paragraphs \<Rightarrow> join_nl (map strip (filter (\<lambda>p. strip p \<noteq> []) paragraphs)))"

text \<open>The headline expression of \<open>main\<close>: \<open>text.split('\n')[0].strip() if text else ""\<close>.
  The list of lines is never empty.\<close>

definition headline_of :: "pstring \<Rightarrow> pstring" where
  "headline_of text =
     (if text \<noteq> [] then (case split_nl text of [] \<Rightarrow> [] | l # _ \<Rightarrow> strip l) else [])"

section \<open>Aggregation\<close>

text \<open>\<open>re.search(r'^Lvl (\d+)', filename)\<close> and \<open>int(level_match.group(1))\<close>\<close>

definition level_match :: "pstring \<Rightarrow> int option" where
  "level_match filename =
     (if prefix (str ''Lvl '') filename \<and> takeWhile is_digit (drop 4 filename) \<noteq> []
      then Some (int (nat_of_digits (takeWhile is_digit (drop 4 filename)))) else None)"

text \<open>The dictionary stored for one level of one article.\<close>

record level_entry =
  headline :: pstring
  article_text :: pstring
  instruction :: pstring
  questions :: pstring
  writing_prompt :: pstring
  filename :: pstring

text \<open>
  \<open>articles\<close> is a dictionary from slugs to dictionaries; Python iterates it in the order
  in which the keys were first inserted, so it is an association list here. The inner
  dictionary has the keys \<open>level_N\<close>, one for each integer \<open>N\<close>, and is a map from \<open>N\<close>.
\<close>

type_synonym articles = "(pstring \<times> (int \<rightharpoonup> level_entry)) list"

text \<open>\<open>articles[slug][f'level_{level}'] = entry\<close>, on a \<open>defaultdict\<close> of empty
  dictionaries.\<close>

fun articles_set :: "articles \<Rightarrow> pstring \<Rightarrow> int \<Rightarrow> level_entry \<Rightarrow> articles" where
  "articles_set [] slug level entry = [(slug, [level \<mapsto> entry])]"
| "articles_set ((s, levels) # rest) slug level entry =
     (if s = slug then (s, levels(level \<mapsto> entry)) # rest
      else (s, levels) # articles_set rest slug level entry)"

text \<open>The body of the loop over the directory: \<open>None\<close> where the loop continues without
  storing anything.\<close>

definition process_file :: "pstring \<times> docx \<Rightarrow> (pstring \<times> int \<times> level_entry) option" where
  "process_file file =
     (case file of (fname, doc) \<Rightarrow>
        if \<not> suffix (str ''.docx'') fname then None
        else (case level_match fname of
                None \<Rightarrow> None
              | Some level \<Rightarrow>
                  (let slug = parse_filename fname;
                       text = extract_text_from_docx doc
                   in if text = [] then None
                      else (case parse_level_content text level of
                              (a, i, q, w) \<Rightarrow>
                                Some (slug, level,
                                  \<lparr>headline = headline_of text, article_text = a,
                                   instruction = i, questions = q, writing_prompt = w,
                                   filename = fname\<rparr>)))))"

fun main_loop :: "articles \<Rightarrow> (pstring \<times> docx) list \<Rightarrow> articles" where
  "main_loop arts [] = arts"
| "main_loop arts (file # rest) =
     (case process_file file of
        None \<Rightarrow> main_loop arts rest
      | Some (slug, level, entry) \<Rightarrow> main_loop (articles_set arts slug level entry) rest)"

text \<open>\<open>str(n)\<close> and the format \<open>{n:03d}\<close>, which pads with zeros to a width of at least
  three.\<close>

definition digit_char :: "nat \<Rightarrow> pchar" where
  "digit_char d = (str ''0123456789'') ! d"

function digits_of :: "nat \<Rightarrow> pstring" where
  "digits_of n = (if n < 10 then [digit_char n] else digits_of (n div 10) @ [digit_char (n mod 10)])"
  by pat_completeness auto
termination
  by (relation "measure id") auto

declare digits_of.simps [simp del]

definition format_03d :: "nat \<Rightarrow> pstring" where
  "format_03d n = replicate (3 - length (digits_of n)) (Latin (CHR ''0'')) @ digits_of n"

record article_data =
  rec_id :: pstring
  rec_fields :: "(pstring \<times> pstring) list"

definition make_article :: "nat \<Rightarrow> pstring \<Rightarrow> (int \<rightharpoonup> level_entry) \<Rightarrow> article_data" where
  "make_article article_id slug levels =
     (let level1 = levels 1; level3 = levels 3; level6 = levels 6
      in \<lparr>rec_id = (str ''rec'') @ format_03d article_id,
          rec_fields =
            [((str ''Headline''),
                case level3 of Some l3 \<Rightarrow> headline l3
                | None \<Rightarrow> (case level1 of Some l1 \<Rightarrow> headline l1
                    | None \<Rightarrow> (case level6 of Some l6 \<Rightarrow> headline l6 | None \<Rightarrow> []))),
             ((str ''Slug''), slug),
             ((str ''Image URL''), []),
             ((str ''Level 0 Text''), []),
             ((str ''Level 0 Questions''), []),
             ((str ''Level 1 Text''), case level1 of Some l1 \<Rightarrow> article_text l1 | None \<Rightarrow> []),
             ((str ''Level 1 Questions''), case level1 of Some l1 \<Rightarrow> questions l1 | None \<Rightarrow> []),
             ((str ''Level 1 Instruction''), case level1 of Some l1 \<Rightarrow> instruction l1 | None \<Rightarrow> []),
             ((str ''Level 2 Text''), []),
             ((str ''Level 2 Questions''), []),
             ((str ''Level 3 Text''), case level3 of Some l3 \<Rightarrow> article_text l3 | None \<Rightarrow> []),
             ((str ''Level 3 Questions''), case level3 of Some l3 \<Rightarrow> questions l3 | None \<Rightarrow> []),
             ((str ''Level 3 Instruction''), case level3 of Some l3 \<Rightarrow> instruction l3 | None \<Rightarrow> []),
             ((str ''Level 4 Text''), []),
             ((str ''Level 4 Questions''), []),
             ((str ''Level 5 Text''), []),
             ((str ''Level 5 Questions''), []),
             ((str ''Level 6 Text''), case level6 of Some l6 \<Rightarrow> article_text l6 | None \<Rightarrow> []),
             ((str ''Level 6 Questions''), case level6 of Some l6 \<Rightarrow> questions l6 | None \<Rightarrow> []),
             ((str ''Level 6 Instruction''), case level6 of Some l6 \<Rightarrow> instruction l6 | None \<Rightarrow> []),
             ((str ''Level 6 Writing Prompt''),
                case level6 of Some l6 \<Rightarrow> writing_prompt l6 | None \<Rightarrow> [])]\<rparr>)"

text \<open>The loop over \<open>articles.items()\<close> with its counter \<open>article_id\<close>.\<close>

fun build_js_data :: "nat \<Rightarrow> articles \<Rightarrow> article_data list" where
  "build_js_data article_id [] = []"
| "build_js_data article_id ((slug, levels) # rest) =
     make_article article_id slug levels # build_js_data (article_id + 1) rest"

text \<open>\<open>main\<close>, from the listing of the directory (each file name with its document) to
  \<open>js_data\<close>.\<close>

definition main :: "(pstring \<times> docx) list \<Rightarrow> article_data list" where
  "main listing = build_js_data 1 (main_loop [] listing)"

section \<open>Auxiliary notions\<close>

text \<open>The characters a slug is made of: lower-case letters, digits and the hyphen.\<close>

definition slug_out :: "pchar \<Rightarrow> bool" where
  "slug_out c = (slug_char c \<and> \<not> is_space c \<and> lower_char c = [c])"

text \<open>The first line of a text that is not blank, trimmed; the empty string when every
  line is blank.\<close>

definition first_nonblank_line :: "pstring \<Rightarrow> pstring" where
  "first_nonblank_line text =
     (case filter (\<lambda>l. strip l \<noteq> []) (split_nl text) of [] \<Rightarrow> [] | l # _ \<Rightarrow> strip l)"

text \<open>The entries that the loop of \<open>main\<close> stores, in the order of the listing.\<close>

definition processed :: "(pstring \<times> docx) list \<Rightarrow> (pstring \<times> int \<times> level_entry) list" where
  "processed listing = List.map_filter process_file listing"

text \<open>The elements of a list in the order of their first occurrence.\<close>

fun encounter_order :: "'a list \<Rightarrow> 'a list" where
  "encounter_order [] = []"
| "encounter_order (x # xs) = x # filter (\<lambda>y. y \<noteq> x) (encounter_order xs)"

text \<open>The entry stored last for a slug and a level.\<close>

fun last_write :: "(pstring \<times> int \<times> level_entry) list \<Rightarrow> pstring \<Rightarrow> int \<Rightarrow> level_entry option" where
  "last_write [] s l = None"
| "last_write ((s', l', e) # es) s l =
     (case last_write es s l of
        Some later \<Rightarrow> Some later
      | None \<Rightarrow> if s' = s \<and> l' = l then Some e else None)"

text \<open>\<open>articles[slug].get(f'level_{level}')\<close>, \<open>None\<close> when the slug or the level is not there.\<close>

definition levels_of :: "articles \<Rightarrow> pstring \<Rightarrow> int \<Rightarrow> level_entry option" where
  "levels_of arts s l = (case map_of arts s of None \<Rightarrow> None | Some levels \<Rightarrow> levels l)"

text \<open>Storing a list of entries one after the other.\<close>

fun store_all :: "articles \<Rightarrow> (pstring \<times> int \<times> level_entry) list \<Rightarrow> articles" where
  "store_all arts [] = arts"
| "store_all arts ((s, l, e) # es) = store_all (articles_set arts s l e) es"

text \<open>A directory of five files: three of them share a slug, two of those the level
  too, and one has no level.\<close>

definition example_listing :: "(pstring \<times> docx) list" where
  "example_listing =
     [((str ''Lvl 3 Storm hits _ Breaking News English.docx''), Some [(str ''Storm mid''), (str ''Body three'')]),
      ((str ''notes.txt''), Some [str ''x'']),
      ((str ''Lvl 1 Other.docx''), Some [str ''Other one'']),
      ((str ''Lvl 1 Storm hits.docx''), Some [(str ''Storm easy''), (str ''Body one'')]),
      ((str ''Lvl 1 Storm, hits.docx''), Some [(str ''Storm later''), (str ''Body later'')])]"

section \<open>The file name algorithm as specified\<close>

text \<open>
  The specification words the first step as stripping the file extension, and the third
  as stripping the attribution suffix matched without regard to case. The definitions
  below follow these words; they are compared with \<open>parse_filename\<close>.
\<close>

text \<open>The extension is taken off the end of the name.\<close>

definition spec_strip_extension :: "pstring \<Rightarrow> pstring" where
  "spec_strip_extension fname =
     (if suffix (str ''.docx'') fname then take (length fname - 5) fname else fname)"

text \<open>A literal at the start of a string, each character compared in lower case.\<close>

fun prefix_nocase :: "pstring \<Rightarrow> pstring \<Rightarrow> bool" where
  "prefix_nocase [] t = True"
| "prefix_nocase (a # as) [] = False"
| "prefix_nocase (a # as) (b # bs) = (lower_char a = lower_char b \<and> prefix_nocase as bs)"

text \<open>The pattern of \<open>attribution_match\<close> with its literal matched without regard to case.\<close>

definition spec_attribution_match :: "pstring \<Rightarrow> bool" where
  "spec_attribution_match t =
     (case dropWhile is_space t of
        [] \<Rightarrow> False
      | c # t2 \<Rightarrow> c = Latin (CHR ''_'') \<and>
          (let t3 = dropWhile is_space t2
           in prefix_nocase (str ''Breaking News English'') t3 \<and> attribution_tail (drop 21 t3)))"

fun spec_sub_attribution :: "pstring \<Rightarrow> pstring" where
  "spec_sub_attribution [] = []"
| "spec_sub_attribution (c # cs) =
     (if spec_attribution_match (c # cs)
      then (if last (c # cs) = Latin (CHR 0x0A) then [Latin (CHR 0x0A)] else [])
      else c # spec_sub_attribution cs)"

definition spec_parse_filename :: "pstring \<Rightarrow> pstring" where
  "spec_parse_filename fname =
     slugify (spec_sub_attribution (sub_level_prefix (spec_strip_extension fname)))"

section \<open>Evaluation of characters\<close>

lemmas char_eval = is_space_def is_digit_def is_ascii_letter_def is_upper_def lower_char_def
  char_of_def bit_Suc_0_iff slug_char_def

section \<open>Searching in strings\<close>

lemma find_aux_None_iff: "find_aux sub s = None \<longleftrightarrow> \<not> sublist sub s"
  by (induction s) (auto simp: sublist_Cons_right)

lemma str_in_sublist: "str_in sub s \<longleftrightarrow> sublist sub s"
  by (simp add: str_in_def find_aux_None_iff)

lemma find_aux_Some:
  "find_aux sub s = Some i \<Longrightarrow>
     i \<le> length s \<and> prefix sub (drop i s) \<and> (\<forall>j<i. \<not> prefix sub (drop j s))"
proof (induction s arbitrary: i)
  case Nil
  then show ?case by (simp split: if_splits)
next
  case (Cons c cs)
  show ?case
  proof (cases "prefix sub (c # cs)")
    case True
    then show ?thesis using Cons.prems by simp
  next
    case False
    then obtain k where k: "find_aux sub cs = Some k" "i = Suc k"
      using Cons.prems by auto
    have ih: "k \<le> length cs \<and> prefix sub (drop k cs) \<and> (\<forall>j<k. \<not> prefix sub (drop j cs))"
      using Cons.IH[OF k(1)] .
    have "\<forall>j<i. \<not> prefix sub (drop j (c # cs))"
    proof (intro allI impI)
      fix j assume "j < i"
      show "\<not> prefix sub (drop j (c # cs))"
      proof (cases j)
        case 0
        then show ?thesis using False by simp
      next
        case (Suc j')
        then show ?thesis using ih \<open>j < i\<close> k(2) by simp
      qed
    qed
    then show ?thesis using ih k(2) by simp
  qed
qed

lemma sublist_strip: "sublist (strip s) s"
proof -
  have "sublist (rev (dropWhile is_space (rev (dropWhile is_space s)))) (dropWhile is_space s)"
    by (simp add: sublist_rev_left)
  moreover have "sublist (dropWhile is_space s) s" by simp
  ultimately show ?thesis unfolding strip_def by (rule sublist_order.order_trans)
qed

lemma sublist_take_before:
  assumes "sublist sub (take i s)" "sub \<noteq> []"
  shows "\<exists>j<i. prefix sub (drop j s)"
proof -
  obtain ps ss where e: "take i s = ps @ sub @ ss" using assms(1) by (auto simp: sublist_def)
  have "s = take i s @ drop i s" by simp
  then have s: "s = ps @ sub @ ss @ drop i s" using e by simp
  have "length (take i s) \<le> i" by simp
  then have "length (ps @ sub @ ss) \<le> i" using e by simp
  then have l: "length ps < i" using assms(2) by (cases sub) auto
  have "drop (length ps) (ps @ sub @ ss @ drop i s) = sub @ ss @ drop i s" by simp
  then have "drop (length ps) s = sub @ ss @ drop i s" using s by simp
  then have "prefix sub (drop (length ps) s)" by simp
  then show ?thesis using l by blast
qed

lemmas seg_eval = parse_level_content_def parse_level_6_content_def
  parse_level_1_and_3_content_def extract_instruction_and_questions_def instruction_markers_def
  writing_prompt_markers_def str_find_def str_in_def strip_def lower_def Let_def

section \<open>Slugs\<close>

lemma lower_char_slug:
  "slug_char c \<Longrightarrow> \<forall>d\<in>set (lower_char c). slug_char d \<and> lower_char d = [d]"
proof (cases c)
  case (Latin a)
  assume "slug_char c"
  then show ?thesis
    unfolding Latin slug_char_def lower_char_def is_upper_def is_ascii_letter_def is_digit_def
      is_space_def Let_def
    by (auto simp: of_char_of)
next
  case Capital_I_With_Dot
  assume "slug_char c"
  then show ?thesis
    unfolding Capital_I_With_Dot
    by (simp add: slug_char_def is_ascii_letter_def is_digit_def is_space_def)
next
  case Combining_Dot_Above
  assume "slug_char c"
  then show ?thesis
    unfolding Combining_Dot_Above
    by (simp add: slug_char_def is_ascii_letter_def is_digit_def is_space_def)
qed

lemma hyphen_slug_out: "slug_out (Latin (CHR ''-''))"
  by (simp add: slug_out_def slug_char_def is_space_def is_upper_def lower_char_def)

lemma set_strip: "set (strip s) \<subseteq> set s"
  unfolding strip_def by (auto dest!: set_dropWhileD)

lemma collapse_ws_out:
  "\<forall>c\<in>set s. slug_char c \<and> lower_char c = [c] \<Longrightarrow> \<forall>c\<in>set (collapse_ws s). slug_out c"
proof (induction s rule: collapse_ws.induct)
  case 1
  then show ?case by simp
next
  case (2 c cs)
  show ?case
  proof (cases "is_space c")
    case True
    have "\<forall>c\<in>set (dropWhile is_space cs). slug_char c \<and> lower_char c = [c]"
      using "2.prems" by (auto dest: set_dropWhileD)
    then show ?thesis using True "2.IH"(1) hyphen_slug_out by simp
  next
    case False
    then show ?thesis using "2.prems" "2.IH"(2) by (simp add: slug_out_def)
  qed
qed

lemma slugify_out: "\<forall>c\<in>set (slugify x). slug_out c"
proof -
  have "\<forall>c\<in>set (lower (filter slug_char x)). slug_char c \<and> lower_char c = [c]"
    using lower_char_slug by (auto simp: lower_def)
  then have "\<forall>c\<in>set (strip (lower (filter slug_char x))). slug_char c \<and> lower_char c = [c]"
    using set_strip by blast
  then show ?thesis unfolding slugify_def by (rule collapse_ws_out)
qed

lemma strip_no_space: "\<forall>c\<in>set s. \<not> is_space c \<Longrightarrow> strip s = s"
proof -
  assume h: "\<forall>c\<in>set s. \<not> is_space c"
  have a: "dropWhile is_space s = s" using h by (cases s) auto
  have "\<forall>c\<in>set (rev s). \<not> is_space c" using h by simp
  then have b: "dropWhile is_space (rev s) = rev s" by (cases "rev s") auto
  show ?thesis by (simp add: strip_def a b)
qed

lemma collapse_ws_no_space: "\<forall>c\<in>set s. \<not> is_space c \<Longrightarrow> collapse_ws s = s"
  by (induction s) auto

lemma slugify_fixed: "\<forall>c\<in>set s. slug_out c \<Longrightarrow> slugify s = s"
proof -
  assume h: "\<forall>c\<in>set s. slug_out c"
  have f: "filter slug_char s = s" using h by (simp add: slug_out_def)
  have l: "lower s = s" using h
    by (induction s) (simp_all add: lower_def slug_out_def)
  have n: "\<forall>c\<in>set s. \<not> is_space c" using h by (simp add: slug_out_def)
  show ?thesis by (simp add: slugify_def f l strip_no_space[OF n] collapse_ws_no_space[OF n])
qed

text \<open>
  C6. Slugify is idempotent: slugifying a slug returns it unchanged, for every string.
  A slug holds only lower-case ASCII letters, digits and hyphens, and on such a string
  the character filter, the lower-casing, the trimming and the collapsing of whitespace
  all do nothing.
\<close>

theorem slugify_idempotent: "slugify (slugify x) = slugify x"
  by (rule slugify_fixed) (rule slugify_out)

theorem slugify_idempotent_witness:
  "slugify (slugify (str ''  Storm, hits   the City '')) = (str ''storm-hits-the-city'')"
proof -
  have "slugify (str ''  Storm, hits   the City '') = (str ''storm-hits-the-city'')"
    by (simp add: slugify_def strip_def lower_def char_eval)
  then show ?thesis using slugify_idempotent [of "(str ''  Storm, hits   the City '')"] by simp
qed

section \<open>The steps of \<open>parse_filename\<close>\<close>





lemmas name_eval = parse_filename_def spec_parse_filename_def slugify_def sub_level_prefix_def
  attribution_match_def spec_attribution_match_def attribution_tail_def spec_strip_extension_def
  strip_def lower_def suffix_to_prefix Let_def




text \<open>
  \<open>filename.replace('.docx', '')\<close> deletes every occurrence of \<open>.docx\<close>, so one inside
  the title is lost with the extension; taking the extension off the end keeps it.
\<close>

lemma parse_filename_inner_extension:
  "parse_filename (str ''Lvl 1 my.docx file.docx'') = str ''my-file''
   \<and> spec_parse_filename (str ''Lvl 1 my.docx file.docx'') = str ''mydocx-file''"
proof -
  have a: "parse_filename (str ''Lvl 1 my.docx file.docx'') = str ''my-file''"
    by (simp add: name_eval char_eval)
  have b: "spec_parse_filename (str ''Lvl 1 my.docx file.docx'') = str ''mydocx-file''"
    by (simp add: name_eval char_eval)
  show ?thesis using a b by simp
qed

section \<open>The homework split\<close>

lemma parse_level_content_absent:
  assumes "find_aux (str ''Homework:'') full_text = None"
  shows "parse_level_content full_text level = (strip full_text, [], [], [])"
proof -
  have f: "str_find full_text (str ''Homework:'') = - 1" using assms by (simp add: str_find_def)
  show ?thesis
  proof (cases "full_text = []")
    case True
    then show ?thesis by (simp add: parse_level_content_def strip_def)
  next
    case False
    then show ?thesis unfolding parse_level_content_def Let_def f by simp
  qed
qed

lemma parse_level_content_present:
  assumes "find_aux (str ''Homework:'') full_text = Some i"
  shows "parse_level_content full_text level =
     (if level = 6
      then parse_level_6_content (strip (take i full_text)) (strip (drop (i + 9) full_text))
      else parse_level_1_and_3_content (strip (take i full_text)) (strip (drop (i + 9) full_text)))"
proof -
  have f: "str_find full_text (str ''Homework:'') = int i" using assms by (simp add: str_find_def)
  have ne: "full_text \<noteq> []" using assms by auto
  show ?thesis unfolding parse_level_content_def Let_def f using ne
    by (simp add: eval_nat_numeral)
qed

lemma fst_parse_level_6_content: "fst (parse_level_6_content a h) = a"
  by (simp add: parse_level_6_content_def Let_def split: prod.splits)

lemma fst_parse_level_1_and_3_content: "fst (parse_level_1_and_3_content a h) = a"
  by (simp add: parse_level_1_and_3_content_def split: prod.splits)


text \<open>
  C4. A text without the literal \<open>Homework:\<close> is returned whole: the article text is
  the trimmed text, and the instruction, the questions and the writing prompt are empty;
  for the empty text every field, the headline included, is empty. The segmenter is a
  total function: no operation it uses can raise on a string and an integer.
\<close>

theorem no_homework_parse:
  "(\<not> sublist (str ''Homework:'') full_text \<longrightarrow>
      parse_level_content full_text level = (strip full_text, [], [], []))
   \<and> parse_level_content [] level = ([], [], [], [])
   \<and> headline_of [] = []"
proof (intro conjI impI)
  assume "\<not> sublist (str ''Homework:'') full_text"
  then have "find_aux (str ''Homework:'') full_text = None" by (simp add: find_aux_None_iff)
  then show "parse_level_content full_text level = (strip full_text, [], [], [])"
    by (rule parse_level_content_absent)
next
  show "parse_level_content [] level = ([], [], [], [])" by (simp add: parse_level_content_def)
next
  show "headline_of [] = []" by (simp add: headline_of_def)
qed

theorem no_homework_parse_witness:
  "\<not> sublist (str ''Homework:'') (str '' Storm hits\<newline>Body line. '') \<and>
   parse_level_content (str '' Storm hits\<newline>Body line. '') 3 =
     ((str ''Storm hits\<newline>Body line.''), [], [], [])"
proof (rule conjI)
  show h: "\<not> sublist (str ''Homework:'') (str '' Storm hits\<newline>Body line. '')"
    by (simp add: sublist_Cons_right)
  have s: "strip (str '' Storm hits\<newline>Body line. '') = (str ''Storm hits\<newline>Body line.'')"
    by (simp add: strip_def char_eval)
  have "parse_level_content (str '' Storm hits\<newline>Body line. '') 3 =
      (strip (str '' Storm hits\<newline>Body line. ''), [], [], [])"
    by (rule no_homework_parse [THEN conjunct1, THEN mp, OF h])
  then show "parse_level_content (str '' Storm hits\<newline>Body line. '') 3 =
      ((str ''Storm hits\<newline>Body line.''), [], [], [])"
    by (simp only: s)
qed

text \<open>
  C10. The article text returned by the segmenter never contains the literal
  \<open>Homework:\<close>, for every text and every level: with the marker present the article text
  is cut from the part before its first occurrence, and without it the whole text has no
  occurrence.
\<close>

theorem article_text_without_homework:
  "\<not> sublist (str ''Homework:'') (fst (parse_level_content full_text level))"
proof (cases "find_aux (str ''Homework:'') full_text")
  case None
  then have n: "\<not> sublist (str ''Homework:'') full_text" by (simp add: find_aux_None_iff)
  have a: "fst (parse_level_content full_text level) = strip full_text"
    by (simp add: parse_level_content_absent[OF None])
  show ?thesis
  proof
    assume "sublist (str ''Homework:'') (fst (parse_level_content full_text level))"
    then have "sublist (str ''Homework:'') (strip full_text)" by (simp only: a)
    then have "sublist (str ''Homework:'') full_text"
      using sublist_strip by (rule sublist_order.order_trans)
    then show False using n by simp
  qed
next
  case (Some i)
  have a: "fst (parse_level_content full_text level) = strip (take i full_text)"
    by (simp add: parse_level_content_present[OF Some] fst_parse_level_6_content
        fst_parse_level_1_and_3_content)
  show ?thesis
  proof
    assume "sublist (str ''Homework:'') (fst (parse_level_content full_text level))"
    then have "sublist (str ''Homework:'') (strip (take i full_text))" by (simp only: a)
    then have "sublist (str ''Homework:'') (take i full_text)"
      using sublist_strip by (rule sublist_order.order_trans)
    then obtain j where "j < i" "prefix (str ''Homework:'') (drop j full_text)"
      using sublist_take_before by blast
    then show False using find_aux_Some[OF Some] by blast
  qed
qed

theorem article_text_without_homework_witness:
  "fst (parse_level_content (str ''Storm hits\<newline>Homework:\<newline>1. Why?'') 1) = (str ''Storm hits'') \<and>
   \<not> sublist (str ''Homework:'') (fst (parse_level_content (str ''Storm hits\<newline>Homework:\<newline>1. Why?'') 1))"
proof (rule conjI)
  show "fst (parse_level_content (str ''Storm hits\<newline>Homework:\<newline>1. Why?'') 1) = (str ''Storm hits'')"
    by (simp add: seg_eval char_eval)
  show "\<not> sublist (str ''Homework:'') (fst (parse_level_content (str ''Storm hits\<newline>Homework:\<newline>1. Why?'') 1))"
    by (rule article_text_without_homework)
qed

section \<open>Instruction and questions\<close>

lemma split_nl_first: "\<exists>l ls. split_nl s = l # ls \<and> prefix l s"
proof (induction s)
  case Nil
  then show ?case by simp
next
  case (Cons c cs)
  then obtain l ls where "split_nl cs = l # ls" "prefix l cs" by blast
  then show ?case by simp
qed

lemma split_nl_sublist: "l \<in> set (split_nl s) \<Longrightarrow> sublist l s"
proof (induction s arbitrary: l)
  case Nil
  then show ?case by simp
next
  case (Cons c cs)
  obtain l0 ls where e: "split_nl cs = l0 # ls" and p: "prefix l0 cs"
    using split_nl_first by blast
  show ?case
  proof (cases "c = (Latin (CHR 0x0A))")
    case True
    then have "l = [] \<or> l \<in> set (split_nl cs)" using Cons.prems by simp
    then show ?thesis using Cons.IH by (auto simp: sublist_Cons_right)
  next
    case False
    then have "l = c # l0 \<or> l \<in> set ls" using Cons.prems e by simp
    then show ?thesis
    proof
      assume "l = c # l0"
      then have "prefix l (c # cs)" using p by simp
      then show ?thesis by (rule prefix_imp_sublist)
    next
      assume "l \<in> set ls"
      then have "l \<in> set (split_nl cs)" using e by simp
      then have "sublist l cs" by (rule Cons.IH)
      then show ?thesis by (simp add: sublist_Cons_right)
    qed
  qed
qed

lemma lower_append: "lower (a @ b) = lower a @ lower b"
  by (simp add: lower_def)

lemma sublist_lower: "sublist a b \<Longrightarrow> sublist (lower a) (lower b)"
proof -
  assume "sublist a b"
  then obtain ps ss where "b = ps @ a @ ss" by (auto simp: sublist_def)
  then have "lower b = lower ps @ lower a @ lower ss" by (simp add: lower_append)
  then show ?thesis unfolding sublist_def by blast
qed

lemma scan_lines_None:
  "\<forall>l\<in>set ls. \<not> sublist (lower m) (lower l) \<Longrightarrow> scan_lines m ls = None"
  by (induction ls) (simp_all add: str_in_sublist)

lemma scan_lines_Some:
  "i < length ls \<Longrightarrow> sublist (lower m) (lower (ls ! i)) \<Longrightarrow>
   \<forall>j<i. \<not> sublist (lower m) (lower (ls ! j)) \<Longrightarrow>
   scan_lines m ls = Some (strip (ls ! i), strip (join_nl (drop (Suc i) ls)))"
proof (induction ls arbitrary: i)
  case Nil
  then show ?case by simp
next
  case (Cons l ls)
  show ?case
  proof (cases i)
    case 0
    then show ?thesis using Cons.prems by (simp add: str_in_sublist)
  next
    case (Suc k)
    have n: "\<not> sublist (lower m) (lower l)" using Cons.prems(3) Suc by auto
    have "\<forall>j<k. \<not> sublist (lower m) (lower (ls ! j))"
    proof (intro allI impI)
      fix j assume "j < k"
      then have "Suc j < i" using Suc by simp
      then have "\<not> sublist (lower m) (lower ((l # ls) ! Suc j))" using Cons.prems(3) by blast
      then show "\<not> sublist (lower m) (lower (ls ! j))" by simp
    qed
    then have "scan_lines m ls = Some (strip (ls ! k), strip (join_nl (drop (Suc k) ls)))"
      using Cons.prems Suc by (intro Cons.IH) simp_all
    then show ?thesis using n Suc by (simp add: str_in_sublist)
  qed
qed

lemma extract_loop_skip:
  "\<forall>m\<in>set pre. \<forall>l\<in>set (split_nl b). \<not> sublist (lower m) (lower l) \<Longrightarrow>
   extract_loop (pre @ rest) b = extract_loop rest b"
proof (induction pre)
  case Nil
  then show ?case by simp
next
  case (Cons m pre)
  have "scan_lines m (split_nl b) = None" using Cons.prems by (intro scan_lines_None) simp
  then show ?case using Cons by simp
qed

lemma str_find_found: "sublist sub s \<Longrightarrow> str_find s sub \<noteq> - 1"
proof -
  assume "sublist sub s"
  then obtain k where "find_aux sub s = Some k" using find_aux_None_iff by fastforce
  then show ?thesis by (simp add: str_find_def)
qed

text \<open>
  C3. Extraction of the instruction and the questions from a block. A marker matches a
  line when the line contains it, both in lower case. When no marker of the list matches
  any line, the instruction is empty and the questions are the block, unchanged. Otherwise
  the first marker of the list that matches some line is selected, whatever the lines that
  later markers match; with \<open>i\<close> the first line it matches, the instruction is line \<open>i\<close>
  trimmed and the questions are the lines after \<open>i\<close>, joined and trimmed.
\<close>

theorem extract_instruction_and_questions_priority:
  "((\<forall>m\<in>set instruction_markers. \<forall>l\<in>set (split_nl block). \<not> sublist (lower m) (lower l)) \<longrightarrow>
      extract_instruction_and_questions block = ([], block))
   \<and> (instruction_markers = pre @ marker # post \<and>
       (\<forall>m\<in>set pre. \<forall>l\<in>set (split_nl block). \<not> sublist (lower m) (lower l)) \<and>
       i < length (split_nl block) \<and>
       sublist (lower marker) (lower (split_nl block ! i)) \<and>
       (\<forall>j<i. \<not> sublist (lower marker) (lower (split_nl block ! j))) \<longrightarrow>
      extract_instruction_and_questions block =
        (strip (split_nl block ! i), strip (join_nl (drop (Suc i) (split_nl block)))))"
proof (intro conjI impI)
  assume "\<forall>m\<in>set instruction_markers. \<forall>l\<in>set (split_nl block). \<not> sublist (lower m) (lower l)"
  then have "extract_loop (instruction_markers @ []) block = extract_loop [] block"
    by (rule extract_loop_skip)
  then show "extract_instruction_and_questions block = ([], block)"
    by (simp add: extract_instruction_and_questions_def)
next
  assume a: "instruction_markers = pre @ marker # post \<and>
       (\<forall>m\<in>set pre. \<forall>l\<in>set (split_nl block). \<not> sublist (lower m) (lower l)) \<and>
       i < length (split_nl block) \<and>
       sublist (lower marker) (lower (split_nl block ! i)) \<and>
       (\<forall>j<i. \<not> sublist (lower marker) (lower (split_nl block ! j)))"
  have s: "extract_loop (pre @ marker # post) block = extract_loop (marker # post) block"
    using a by (intro extract_loop_skip) simp
  have "split_nl block ! i \<in> set (split_nl block)" using a by simp
  then have "sublist (lower (split_nl block ! i)) (lower block)"
    by (intro sublist_lower split_nl_sublist)
  then have "sublist (lower marker) (lower block)"
    using a sublist_order.order_trans by blast
  then have f: "str_find (lower block) (lower marker) \<noteq> - 1" by (rule str_find_found)
  have sc: "scan_lines marker (split_nl block) =
      Some (strip (split_nl block ! i), strip (join_nl (drop (Suc i) (split_nl block))))"
    using a by (intro scan_lines_Some) simp_all
  show "extract_instruction_and_questions block =
        (strip (split_nl block ! i), strip (join_nl (drop (Suc i) (split_nl block))))"
    using a s f sc by (simp add: extract_instruction_and_questions_def)
qed

theorem extract_instruction_and_questions_priority_witness:
  "extract_instruction_and_questions
     (str ''Answer each question below.\<newline>please WRITE A FULL SENTENCE now.\<newline>1. a\<newline>2. b'') =
     ((str ''please WRITE A FULL SENTENCE now.''), (str ''1. a\<newline>2. b''))
   \<and> extract_instruction_and_questions (str ''1. a\<newline>2. b '') = ([], (str ''1. a\<newline>2. b ''))"
proof (rule conjI)
  let ?b = "(str ''Answer each question below.\<newline>please WRITE A FULL SENTENCE now.\<newline>1. a\<newline>2. b'')"
  have sp: "split_nl ?b =
      [(str ''Answer each question below.''), (str ''please WRITE A FULL SENTENCE now.''), (str ''1. a''), (str ''2. b'')]"
    by simp
  have h: "instruction_markers = [] @ (str ''Write a full sentence'') #
        [(str ''Write a full-sentence''), (str ''Answer each question''), (str ''Write full sentences''),
         (str ''In your Vocab Notebook'')] \<and>
       (\<forall>m\<in>set []. \<forall>l\<in>set (split_nl ?b). \<not> sublist (lower m) (lower l)) \<and>
       1 < length (split_nl ?b) \<and>
       sublist (lower (str ''Write a full sentence'')) (lower (split_nl ?b ! 1)) \<and>
       (\<forall>j<1. \<not> sublist (lower (str ''Write a full sentence'')) (lower (split_nl ?b ! j)))"
    unfolding sp by (simp add: instruction_markers_def lower_def char_eval sublist_Cons_right)
  have "extract_instruction_and_questions ?b =
      (strip (split_nl ?b ! 1), strip (join_nl (drop (Suc 1) (split_nl ?b))))"
    by (rule extract_instruction_and_questions_priority [THEN conjunct2, THEN mp, OF h])
  then show "extract_instruction_and_questions ?b =
      ((str ''please WRITE A FULL SENTENCE now.''), (str ''1. a\<newline>2. b''))"
    unfolding sp by (simp add: strip_def char_eval)
next
  let ?c = "(str ''1. a\<newline>2. b '')"
  have h: "\<forall>m\<in>set instruction_markers. \<forall>l\<in>set (split_nl ?c). \<not> sublist (lower m) (lower l)"
    by (simp add: instruction_markers_def lower_def char_eval sublist_Cons_right)
  show "extract_instruction_and_questions ?c = ([], ?c)"
    by (rule extract_instruction_and_questions_priority [THEN conjunct1, THEN mp, OF h])
qed

section \<open>Writing prompts\<close>

lemma find_aux_first:
  assumes "i \<le> length s" "prefix sub (drop i s)" "\<forall>j<i. \<not> prefix sub (drop j s)"
  shows "find_aux sub s = Some i"
proof -
  have "sublist (drop i s) s" by simp
  with assms(2) have "sublist sub s"
    using prefix_imp_sublist sublist_order.order_trans by blast
  then obtain k where k: "find_aux sub s = Some k" using find_aux_None_iff by fastforce
  have p: "k \<le> length s \<and> prefix sub (drop k s) \<and> (\<forall>j<k. \<not> prefix sub (drop j s))"
    using find_aux_Some[OF k] .
  have "\<not> k < i" using assms(3) p by blast
  moreover have "\<not> i < k" using assms(2) p by blast
  ultimately have "k = i" by simp
  then show ?thesis using k by simp
qed

lemma str_find_absent: "\<not> sublist sub s \<Longrightarrow> str_find s sub = - 1"
  by (simp add: str_find_def find_aux_None_iff [symmetric])

lemma find_writing_index_skip:
  "\<forall>m\<in>set pre. \<not> sublist (lower m) (lower b) \<Longrightarrow>
   find_writing_index (pre @ rest) b = find_writing_index rest b"
  by (induction pre) (simp_all add: str_find_absent)

lemmas extract_eval = extract_instruction_and_questions_def instruction_markers_def
  str_find_def str_in_def strip_def lower_def

lemma lower_char_single: "c \<noteq> Capital_I_With_Dot \<Longrightarrow> \<exists>d. lower_char c = [d]"
  by (cases c) (simp_all add: lower_char_def)

lemma lower_drop: "Capital_I_With_Dot \<notin> set s \<Longrightarrow> drop p (lower s) = lower (drop p s)"
proof (induction s arbitrary: p)
  case Nil
  then show ?case by (simp add: lower_def)
next
  case (Cons c cs)
  obtain d where d: "lower_char c = [d]" using Cons.prems lower_char_single[of c] by auto
  have l: "lower (c # cs) = d # lower cs" by (simp add: lower_def d)
  show ?case
  proof (cases p)
    case 0
    then show ?thesis by simp
  next
    case (Suc q)
    have "drop q (lower cs) = lower (drop q cs)" using Cons.prems by (intro Cons.IH) simp
    then show ?thesis unfolding l Suc by simp
  qed
qed

lemma lower_drop_before:
  "Capital_I_With_Dot \<notin> set (take p s) \<Longrightarrow> j \<le> p \<Longrightarrow> drop j (lower s) = lower (drop j s)"
proof (induction s arbitrary: p j)
  case Nil
  then show ?case by (simp add: lower_def)
next
  case (Cons c cs)
  show ?case
  proof (cases j)
    case 0
    then show ?thesis by simp
  next
    case (Suc i)
    then obtain q where q: "p = Suc q" using Cons.prems(2) by (cases p) auto
    have c: "c \<noteq> Capital_I_With_Dot" and r: "Capital_I_With_Dot \<notin> set (take q cs)"
      using Cons.prems(1) q by auto
    obtain d where d: "lower_char c = [d]" using c lower_char_single by blast
    have l: "lower (c # cs) = d # lower cs" by (simp add: lower_def d)
    have "i \<le> q" using Cons.prems(2) q Suc by simp
    then have "drop i (lower cs) = lower (drop i cs)" using r by (intro Cons.IH)
    then show ?thesis unfolding l Suc by simp
  qed
qed

lemma length_lower_ge: "length s \<le> length (lower s)"
proof (induction s)
  case Nil
  then show ?case by (simp add: lower_def)
next
  case (Cons c cs)
  have "lower_char c \<noteq> []" by (cases c) (simp_all add: lower_char_def)
  then have "1 \<le> length (lower_char c)" by (cases "lower_char c") simp_all
  moreover have "lower (c # cs) = lower_char c @ lower cs" by (simp add: lower_def)
  ultimately show ?case using Cons by simp
qed

text \<open>
  C1, as amended. For level 6 the writing-prompt marker is chosen by priority. Take
  \<open>marker\<close> the first marker of the list that occurs in the block, both in lower case,
  and \<open>p\<close> the position in the block of its first occurrence, with no U+0130 in the block
  before \<open>p\<close>. Then, whatever later markers occur before \<open>p\<close>, the text before the writing
  prompt is the trimmed \<open>block[0:p]\<close>, from which the instruction and the questions are
  extracted, and the writing prompt is the trimmed \<open>block[p:]\<close>.
\<close>

theorem parse_level_6_content_priority:
  "writing_prompt_markers = pre @ marker # post \<and>
   (\<forall>m\<in>set pre. \<not> sublist (lower m) (lower block)) \<and>
   p \<le> length block \<and> Capital_I_With_Dot \<notin> set (take p block) \<and>
   prefix (lower marker) (lower (drop p block)) \<and>
   (\<forall>j<p. \<not> prefix (lower marker) (lower (drop j block)))
   \<longrightarrow> parse_level_6_content article block =
     (case extract_instruction_and_questions (strip (take p block)) of
        (instr, qs) \<Rightarrow> (article, instr, qs, strip (drop p block)))"
proof
  assume a: "writing_prompt_markers = pre @ marker # post \<and>
   (\<forall>m\<in>set pre. \<not> sublist (lower m) (lower block)) \<and>
   p \<le> length block \<and> Capital_I_With_Dot \<notin> set (take p block) \<and>
   prefix (lower marker) (lower (drop p block)) \<and>
   (\<forall>j<p. \<not> prefix (lower marker) (lower (drop j block)))"
  then have u: "Capital_I_With_Dot \<notin> set (take p block)" by simp
  have d: "drop j (lower block) = lower (drop j block)" if "j \<le> p" for j
    using u that by (rule lower_drop_before)
  have "p \<le> length (lower block)" using a length_lower_ge[of block] by simp
  moreover have "prefix (lower marker) (drop p (lower block))" using a d[of p] by simp
  moreover have "\<forall>j<p. \<not> prefix (lower marker) (drop j (lower block))"
    using a d by simp
  ultimately have "find_aux (lower marker) (lower block) = Some p"
    by (rule find_aux_first)
  then have f: "str_find (lower block) (lower marker) = int p" by (simp add: str_find_def)
  have "find_writing_index (pre @ marker # post) block = find_writing_index (marker # post) block"
    using a by (intro find_writing_index_skip) simp
  then have w: "find_writing_index writing_prompt_markers block = int p"
    using a f by simp
  show "parse_level_6_content article block =
     (case extract_instruction_and_questions (strip (take p block)) of
        (instr, qs) \<Rightarrow> (article, instr, qs, strip (drop p block)))"
    unfolding parse_level_6_content_def Let_def w by simp
qed

theorem parse_level_6_content_priority_witness:
  "parse_level_6_content (str ''A'') (str ''Writing Practice first\<newline>Academic Writing later'') =
     (str ''A'', [], str ''Writing Practice first'', str ''Academic Writing later'')"
proof -
  let ?b = "str ''Writing Practice first\<newline>Academic Writing later''"
  have f: "find_aux (lower (str ''Academic Writing'')) (lower ?b) = Some 23"
    by (simp add: lower_def char_eval)
  have n: "\<not> sublist (lower (str ''Free Writing'')) (lower ?b)"
    by (simp add: lower_def char_eval sublist_Cons_right)
  have u: "Capital_I_With_Dot \<notin> set ?b" by simp
  have d: "lower (drop j ?b) = drop j (lower ?b)" for j
    using lower_drop[OF u, of j] by simp
  have h: "writing_prompt_markers =
       [str ''Free Writing''] @ str ''Academic Writing'' #
         [str ''Writing Practice'', str ''writing practice''] \<and>
     (\<forall>m\<in>set [str ''Free Writing'']. \<not> sublist (lower m) (lower ?b)) \<and>
     23 \<le> length ?b \<and> Capital_I_With_Dot \<notin> set (take 23 ?b) \<and>
     prefix (lower (str ''Academic Writing'')) (lower (drop 23 ?b)) \<and>
     (\<forall>j<23. \<not> prefix (lower (str ''Academic Writing'')) (lower (drop j ?b)))"
    unfolding d using find_aux_Some [OF f] n by (simp add: writing_prompt_markers_def)
  have "parse_level_6_content (str ''A'') ?b =
     (case extract_instruction_and_questions (strip (take 23 ?b)) of
        (instr, qs) \<Rightarrow> (str ''A'', instr, qs, strip (drop 23 ?b)))"
    by (rule parse_level_6_content_priority [THEN mp, OF h])
  then show ?thesis by (simp add: extract_eval char_eval)
qed

text \<open>
  The position is searched in the block in lower case and used in the block itself
  (\<open>after_homework.lower().find\<close>, then \<open>after_homework[:writing_index]\<close>). U+0130 becomes
  two code points in lower case, so after it the two positions differ: in the block below
  \<open>Free Writing\<close> stands at position 10, the search gives 14, and the split falls inside
  the marker.
\<close>

lemma parse_level_6_content_capital_i_with_dot:
  "parse_level_6_content (str ''A'')
     (replicate 4 Capital_I_With_Dot @ str '' 1. q\<newline>Free Writing: x'') =
     (str ''A'', [], replicate 4 Capital_I_With_Dot @ str '' 1. q\<newline>Free'', str ''Writing: x'')"
  by (simp add: seg_eval char_eval eval_nat_numeral)

text \<open>
  The text before the writing prompt is trimmed before the extraction. With no
  instruction marker in it the questions are that text, so the newline that ends
  \<open>block[0:p]\<close> is not part of them: here \<open>p = 27\<close>, the questions are
  \<open>Academic Writing task\n1. q\<close>, and the extraction from the untrimmed \<open>block[0:27]\<close>
  would keep the final newline.
\<close>

theorem parse_level_6_content_untrimmed_counterexample:
  "find_aux (lower (str ''Free Writing'')) (lower (str ''Academic Writing task\<newline>1. q\<newline>Free Writing: x'')) = Some 27
   \<and> parse_level_6_content (str ''A'') (str ''Academic Writing task\<newline>1. q\<newline>Free Writing: x'') =
       ((str ''A''), [], (str ''Academic Writing task\<newline>1. q''), (str ''Free Writing: x''))
   \<and> extract_instruction_and_questions (take 27 (str ''Academic Writing task\<newline>1. q\<newline>Free Writing: x'')) =
       ([], (str ''Academic Writing task\<newline>1. q\<newline>''))
   \<and> \<not> (parse_level_6_content (str ''A'') (str ''Academic Writing task\<newline>1. q\<newline>Free Writing: x'') =
       (case extract_instruction_and_questions
               (take 27 (str ''Academic Writing task\<newline>1. q\<newline>Free Writing: x'')) of
          (instr, qs) \<Rightarrow>
            ((str ''A''), instr, qs, strip (drop 27 (str ''Academic Writing task\<newline>1. q\<newline>Free Writing: x'')))))"
proof -
  have a: "find_aux (lower (str ''Free Writing'')) (lower (str ''Academic Writing task\<newline>1. q\<newline>Free Writing: x'')) = Some 27"
    by (simp add: lower_def char_eval)
  have b: "parse_level_6_content (str ''A'') (str ''Academic Writing task\<newline>1. q\<newline>Free Writing: x'') =
       ((str ''A''), [], (str ''Academic Writing task\<newline>1. q''), (str ''Free Writing: x''))"
    by (simp add: seg_eval char_eval)
  have c: "extract_instruction_and_questions (take 27 (str ''Academic Writing task\<newline>1. q\<newline>Free Writing: x'')) =
       ([], (str ''Academic Writing task\<newline>1. q\<newline>''))"
    by (simp add: extract_eval char_eval)
  show ?thesis unfolding b c using a by simp
qed

section \<open>Headlines\<close>

lemma dropWhile_snoc_keep: "\<not> P x \<Longrightarrow> \<exists>ys. dropWhile P (zs @ [x]) = ys @ [x]"
  by (induction zs) auto

lemma strip_starts_nonspace:
  assumes "\<not> is_space c"
  shows "\<exists>t. strip (c # cs) = c # t"
proof -
  have d: "dropWhile is_space (c # cs) = c # cs" using assms by simp
  obtain ys where "dropWhile is_space (rev cs @ [c]) = ys @ [c]"
    using dropWhile_snoc_keep[of is_space c "rev cs"] assms by blast
  then have "strip (c # cs) = c # rev ys" using assms by (simp add: strip_def)
  then show ?thesis by blast
qed

lemma strip_hd_nonspace:
  assumes "strip s \<noteq> []"
  shows "\<exists>c t. strip s = c # t \<and> \<not> is_space c"
proof -
  have "dropWhile is_space s \<noteq> []" using assms by (cases "dropWhile is_space s") (simp_all add: strip_def)
  then obtain x xs where d: "dropWhile is_space s = x # xs" by (cases "dropWhile is_space s") auto
  have nx: "\<not> is_space x" using d by (metis hd_dropWhile list.sel(1) list.distinct(1))
  have e: "strip s = strip (x # xs)" using nx by (simp add: strip_def d)
  obtain t where "strip (x # xs) = x # t" using strip_starts_nonspace[OF nx, of xs] by blast
  then have "strip s = x # t \<and> \<not> is_space x" using e nx by simp
  then show ?thesis by blast
qed

lemma join_nl_starts: "\<exists>t. join_nl (a # rest) = a @ t"
  by (cases rest) auto

lemma extract_text_starts:
  "extract_text_from_docx doc = [] \<or>
   (\<exists>c cs. extract_text_from_docx doc = c # cs \<and> \<not> is_space c)"
proof (cases doc)
  case None
  then show ?thesis by (simp add: extract_text_from_docx_def)
next
  case (Some paragraphs)
  show ?thesis
  proof (cases "filter (\<lambda>p. strip p \<noteq> []) paragraphs")
    case Nil
    then show ?thesis using Some by (simp add: extract_text_from_docx_def)
  next
    case (Cons p ps)
    then have "p \<in> set (filter (\<lambda>p. strip p \<noteq> []) paragraphs)" by simp
    then have "strip p \<noteq> []" by simp
    then obtain c t where ct: "strip p = c # t" "\<not> is_space c"
      using strip_hd_nonspace by blast
    obtain u where "join_nl (strip p # map strip ps) = strip p @ u"
      using join_nl_starts by blast
    then have "extract_text_from_docx doc = c # (t @ u)"
      using Some Cons ct by (simp add: extract_text_from_docx_def)
    then show ?thesis using ct by blast
  qed
qed

lemma newline_is_space: "is_space (Latin (CHR 0x0A))"
  by (simp add: is_space_def)

lemma split_nl_nonempty: "split_nl s \<noteq> []"
  by (cases s) (auto split: list.splits)

lemma headline_of_nonspace:
  assumes "\<not> is_space c"
  shows "headline_of (c # cs) = first_nonblank_line (c # cs)"
proof -
  have nl: "c \<noteq> (Latin (CHR 0x0A))" using assms newline_is_space by auto
  obtain l0 ls where e: "split_nl cs = l0 # ls"
    using split_nl_nonempty[of cs] by (cases "split_nl cs") auto
  have sp: "split_nl (c # cs) = (c # l0) # ls" using nl e by simp
  obtain t where "strip (c # l0) = c # t" using strip_starts_nonspace[OF assms] by blast
  then have "strip (c # l0) \<noteq> []" by simp
  then show ?thesis unfolding headline_of_def first_nonblank_line_def sp by simp
qed

text \<open>
  C2. The headline stored for a parsed level is the first non-blank line of the whole
  extracted text, trimmed, and the empty string when the text has no such line. The text
  comes from \<open>extract_text_from_docx\<close>, which joins trimmed non-blank paragraphs, so it
  is empty or starts with a character that is not white space; its first line is then its
  first non-blank line. The headline does not depend on the level or on where the homework
  section starts.
\<close>

theorem headline_first_nonblank:
  "headline_of (extract_text_from_docx doc) = first_nonblank_line (extract_text_from_docx doc)
   \<and> (process_file (fname, doc) = Some (slug, level, entry) \<longrightarrow>
        headline entry = first_nonblank_line (extract_text_from_docx doc))"
proof -
  have h: "headline_of (extract_text_from_docx doc) =
      first_nonblank_line (extract_text_from_docx doc)"
    using extract_text_starts[of doc]
  proof
    assume "extract_text_from_docx doc = []"
    then show ?thesis by (simp add: headline_of_def first_nonblank_line_def strip_def)
  next
    assume "\<exists>c cs. extract_text_from_docx doc = c # cs \<and> \<not> is_space c"
    then show ?thesis using headline_of_nonspace by auto
  qed
  have "headline entry = headline_of (extract_text_from_docx doc)"
    if "process_file (fname, doc) = Some (slug, level, entry)"
    using that
    by (auto simp: process_file_def Let_def split: if_splits option.splits prod.splits)
  then show ?thesis using h by simp
qed

lemmas file_eval = process_file_def level_match_def parse_filename_def slugify_def
  sub_level_prefix_def attribution_match_def attribution_tail_def extract_text_from_docx_def
  headline_of_def nat_of_digits_def digit_val_def suffix_to_prefix

theorem headline_first_nonblank_witness:
  "process_file ((str ''Lvl 1 Storm.docx''), Some [(str ''  ''), (str '' Storm hits \<newline> city''), (str ''Body'')]) =
     Some ((str ''storm''), 1,
       \<lparr>headline = (str ''Storm hits''), article_text = (str ''Storm hits \<newline> city\<newline>Body''),
        instruction = [], questions = [], writing_prompt = [],
        filename = (str ''Lvl 1 Storm.docx'')\<rparr>)
   \<and> first_nonblank_line
       (extract_text_from_docx (Some [(str ''  ''), (str '' Storm hits \<newline> city''), (str ''Body'')])) = (str ''Storm hits'')"
proof (rule conjI)
  show p: "process_file ((str ''Lvl 1 Storm.docx''), Some [(str ''  ''), (str '' Storm hits \<newline> city''), (str ''Body'')]) =
     Some ((str ''storm''), 1,
       \<lparr>headline = (str ''Storm hits''), article_text = (str ''Storm hits \<newline> city\<newline>Body''),
        instruction = [], questions = [], writing_prompt = [],
        filename = (str ''Lvl 1 Storm.docx'')\<rparr>)"
    by (simp add: file_eval seg_eval char_eval)
  have "headline \<lparr>headline = (str ''Storm hits''), article_text = (str ''Storm hits \<newline> city\<newline>Body''),
        instruction = [], questions = [], writing_prompt = [],
        filename = (str ''Lvl 1 Storm.docx'')\<rparr> =
      first_nonblank_line
       (extract_text_from_docx (Some [(str ''  ''), (str '' Storm hits \<newline> city''), (str ''Body'')]))"
    by (rule headline_first_nonblank [THEN conjunct2, THEN mp, OF p])
  then show "first_nonblank_line
       (extract_text_from_docx (Some [(str ''  ''), (str '' Storm hits \<newline> city''), (str ''Body'')])) = (str ''Storm hits'')"
    by simp
qed

section \<open>Aggregation by slug\<close>

lemma main_loop_processed: "main_loop arts listing = store_all arts (processed listing)"
  by (induction listing arbitrary: arts)
     (auto simp: processed_def List.map_filter_simps split: option.splits)

lemma keys_articles_set:
  "map fst (articles_set arts s l e) =
     (if s \<in> set (map fst arts) then map fst arts else map fst arts @ [s])"
  by (induction arts) (fastforce+)

lemma set_encounter_order: "set (encounter_order xs) = set xs"
  by (induction xs) auto

lemma distinct_encounter_order: "distinct (encounter_order xs)"
  by (induction xs) (auto simp: set_encounter_order)

lemma length_encounter_order: "length (encounter_order xs) = card (set xs)"
  using distinct_card[OF distinct_encounter_order, of xs] by (simp add: set_encounter_order)

lemma keys_store_all:
  "map fst (store_all arts es) =
     map fst arts @ filter (\<lambda>s. s \<notin> set (map fst arts)) (encounter_order (map fst es))"
proof (induction es arbitrary: arts)
  case Nil
  then show ?case by simp
next
  case (Cons x es)
  obtain s l e where x: "x = (s, l, e)" by (cases x) auto
  show ?case
  proof (cases "s \<in> set (map fst arts)")
    case True
    have "filter (\<lambda>t. t \<notin> set (map fst arts)) (filter (\<lambda>y. y \<noteq> s) (encounter_order (map fst es))) =
        filter (\<lambda>t. t \<notin> set (map fst arts)) (encounter_order (map fst es))"
      using True by (auto intro: filter_cong)
    then show ?thesis using True x Cons.IH[of "articles_set arts s l e"]
      by (simp add: keys_articles_set)
  next
    case False
    have "filter (\<lambda>t. t \<notin> set (map fst arts @ [s])) (encounter_order (map fst es)) =
        filter (\<lambda>t. t \<notin> set (map fst arts)) (filter (\<lambda>y. y \<noteq> s) (encounter_order (map fst es)))"
      by (auto intro: filter_cong)
    then show ?thesis using False x Cons.IH[of "articles_set arts s l e"]
      by (simp add: keys_articles_set)
  qed
qed

lemma keys_main_loop:
  "map fst (main_loop [] listing) = encounter_order (map fst (processed listing))"
  by (simp add: main_loop_processed keys_store_all)

lemma map_of_articles_set:
  "map_of (articles_set arts s l e) s' =
     (if s' = s
      then Some (\<lambda>x. if x = l then Some e
                 else (case map_of arts s of None \<Rightarrow> None | Some levels \<Rightarrow> levels x))
      else map_of arts s')"
proof (induction arts)
  case Nil
  then show ?case by (auto simp: fun_upd_def)
next
  case (Cons a arts)
  obtain t m where a: "a = (t, m)" by (cases a) auto
  show ?case
  proof (cases "t = s")
    case True
    then show ?thesis using a by (auto simp: fun_upd_def)
  next
    case False
    have m: "map_of (a # arts) s = map_of arts s" using False a by simp
    have "map_of (articles_set (a # arts) s l e) s' =
        (if s' = t then Some m else map_of (articles_set arts s l e) s')"
      using False a by simp
    then show ?thesis unfolding m using False a Cons.IH by auto
  qed
qed

lemma levels_of_articles_set:
  "levels_of (articles_set arts s l e) s' l' =
     (if s' = s \<and> l' = l then Some e else levels_of arts s' l')"
  by (auto simp: levels_of_def map_of_articles_set split: option.splits)

lemma levels_of_store_all:
  "levels_of (store_all arts es) s l =
     (case last_write es s l of Some e \<Rightarrow> Some e | None \<Rightarrow> levels_of arts s l)"
proof (induction es arbitrary: arts)
  case Nil
  then show ?case by simp
next
  case (Cons x es)
  obtain s' l' e where x: "x = (s', l', e)" by (cases x) auto
  show ?case using Cons.IH[of "articles_set arts s' l' e"] x
    by (simp add: levels_of_articles_set split: option.splits)
qed

lemma levels_of_main_loop:
  "levels_of (main_loop [] listing) s l = last_write (processed listing) s l"
proof -
  have "levels_of [] s l = None" by (simp add: levels_of_def)
  then show ?thesis
    unfolding main_loop_processed levels_of_store_all by (simp split: option.splits)
qed

lemma length_build_js_data: "length (build_js_data n arts) = length arts"
  by (induction n arts rule: build_js_data.induct) auto

lemma nth_build_js_data:
  "i < length arts \<Longrightarrow>
   build_js_data n arts ! i = make_article (n + i) (fst (arts ! i)) (snd (arts ! i))"
proof (induction n arts arbitrary: i rule: build_js_data.induct)
  case (1 article_id)
  then show ?case by simp
next
  case (2 article_id slug levels rest)
  then show ?case by (cases i) auto
qed

section \<open>Record identifiers\<close>






lemma length_digits_of_pos: "0 < length (digits_of n)"
  by (subst digits_of.simps) simp




section \<open>The records of \<open>main\<close>\<close>

lemma distinct_keys_main_loop: "distinct (map fst (main_loop [] listing))"
  by (simp add: keys_main_loop distinct_encounter_order)

lemma length_main:
  "length (main listing) = length (encounter_order (map fst (processed listing)))"
  unfolding main_def length_build_js_data using keys_main_loop[of listing]
  by (metis length_map)

lemma main_nth:
  assumes "i < length (encounter_order (map fst (processed listing)))"
  shows "main listing ! i =
     make_article (Suc i) (encounter_order (map fst (processed listing)) ! i)
       (last_write (processed listing) (encounter_order (map fst (processed listing)) ! i))"
proof -
  let ?arts = "main_loop [] listing"
  let ?keys = "encounter_order (map fst (processed listing))"
  have k: "map fst ?arts = ?keys" by (rule keys_main_loop)
  have len: "i < length ?arts" using assms k by (metis length_map)
  have f: "fst (?arts ! i) = ?keys ! i" using k len by (metis nth_map)
  have "?arts ! i \<in> set ?arts" using len by simp
  then have "(fst (?arts ! i), snd (?arts ! i)) \<in> set ?arts" by simp
  then have m: "map_of ?arts (fst (?arts ! i)) = Some (snd (?arts ! i))"
    using distinct_keys_main_loop by (intro map_of_is_SomeI)
  have "snd (?arts ! i) l = last_write (processed listing) (?keys ! i) l" for l
    using levels_of_main_loop[of listing "?keys ! i" l] m f by (simp add: levels_of_def)
  then have s: "snd (?arts ! i) = last_write (processed listing) (?keys ! i)" by (rule ext)
  have "main listing ! i = make_article (1 + i) (fst (?arts ! i)) (snd (?arts ! i))"
    unfolding main_def using len by (rule nth_build_js_data)
  then show ?thesis using f s by simp
qed


lemma slug_make_article: "map_of (rec_fields (make_article n s m)) (str ''Slug'') = Some s"
  by (simp add: make_article_def Let_def)

lemma headline_make_article:
  "map_of (rec_fields (make_article n s m)) (str ''Headline'') =
     Some (case m 3 of Some l3 \<Rightarrow> headline l3
           | None \<Rightarrow> (case m 1 of Some l1 \<Rightarrow> headline l1
               | None \<Rightarrow> (case m 6 of Some l6 \<Rightarrow> headline l6 | None \<Rightarrow> [])))"
  by (simp add: make_article_def Let_def)

lemma level1_text_make_article:
  "map_of (rec_fields (make_article n s m)) (str ''Level 1 Text'') =
     Some (case m 1 of Some l1 \<Rightarrow> article_text l1 | None \<Rightarrow> [])"
  by (simp add: make_article_def Let_def)

lemma main_slugs:
  "map (\<lambda>r. map_of (rec_fields r) (str ''Slug'')) (main listing) =
     map Some (encounter_order (map fst (processed listing)))"
proof (rule nth_equalityI)
  show "length (map (\<lambda>r. map_of (rec_fields r) (str ''Slug'')) (main listing)) =
      length (map Some (encounter_order (map fst (processed listing))))"
    by (simp add: length_main)
next
  fix i assume "i < length (map (\<lambda>r. map_of (rec_fields r) (str ''Slug'')) (main listing))"
  then have i: "i < length (encounter_order (map fst (processed listing)))"
    by (simp add: length_main)
  then have "i < length (main listing)" by (simp add: length_main)
  then show "map (\<lambda>r. map_of (rec_fields r) (str ''Slug'')) (main listing) ! i =
      map Some (encounter_order (map fst (processed listing))) ! i"
    using i by (simp add: main_nth[OF i] slug_make_article [simplified])
qed

lemma process_file_slug:
  "process_file (fname, doc) = Some (s, l, e) \<Longrightarrow>
     s = parse_filename fname \<and> level_match fname = Some l \<and> filename e = fname"
  by (auto simp: process_file_def Let_def split: if_splits option.splits prod.splits)

lemma processed_example:
  "processed example_listing =
     [((str ''storm-hits''), 3,
        \<lparr>headline = (str ''Storm mid''), article_text = (str ''Storm mid\<newline>Body three''), instruction = [],
         questions = [], writing_prompt = [],
         filename = (str ''Lvl 3 Storm hits _ Breaking News English.docx'')\<rparr>),
      ((str ''other''), 1,
        \<lparr>headline = (str ''Other one''), article_text = (str ''Other one''), instruction = [],
         questions = [], writing_prompt = [], filename = (str ''Lvl 1 Other.docx'')\<rparr>),
      ((str ''storm-hits''), 1,
        \<lparr>headline = (str ''Storm easy''), article_text = (str ''Storm easy\<newline>Body one''), instruction = [],
         questions = [], writing_prompt = [], filename = (str ''Lvl 1 Storm hits.docx'')\<rparr>),
      ((str ''storm-hits''), 1,
        \<lparr>headline = (str ''Storm later''), article_text = (str ''Storm later\<newline>Body later''),
         instruction = [], questions = [], writing_prompt = [],
         filename = (str ''Lvl 1 Storm, hits.docx'')\<rparr>)]"
  by (simp add: processed_def example_listing_def List.map_filter_simps file_eval seg_eval char_eval)

lemma keys_example:
  "encounter_order (map fst (processed example_listing)) = [(str ''storm-hits''), (str ''other'')]"
  by (simp add: processed_example)



text \<open>
  C7. The headline of a record is taken from the entry stored for its slug at level 3 when
  there is one, else from the entry at level 1, else from the entry at level 6, and is
  empty when the slug has none of these levels, whatever other levels it has.
\<close>

theorem headline_priority:
  "\<forall>i<length (main listing).
     map_of (rec_fields (main listing ! i)) (str ''Headline'') =
       Some (case last_write (processed listing)
                   (encounter_order (map fst (processed listing)) ! i) 3 of
               Some l3 \<Rightarrow> headline l3
             | None \<Rightarrow>
                 (case last_write (processed listing)
                         (encounter_order (map fst (processed listing)) ! i) 1 of
                    Some l1 \<Rightarrow> headline l1
                  | None \<Rightarrow>
                      (case last_write (processed listing)
                              (encounter_order (map fst (processed listing)) ! i) 6 of
                         Some l6 \<Rightarrow> headline l6
                       | None \<Rightarrow> [])))"
proof (intro allI impI)
  fix i assume "i < length (main listing)"
  then have i: "i < length (encounter_order (map fst (processed listing)))"
    by (simp add: length_main)
  show "map_of (rec_fields (main listing ! i)) (str ''Headline'') =
       Some (case last_write (processed listing)
                   (encounter_order (map fst (processed listing)) ! i) 3 of
               Some l3 \<Rightarrow> headline l3
             | None \<Rightarrow>
                 (case last_write (processed listing)
                         (encounter_order (map fst (processed listing)) ! i) 1 of
                    Some l1 \<Rightarrow> headline l1
                  | None \<Rightarrow>
                      (case last_write (processed listing)
                              (encounter_order (map fst (processed listing)) ! i) 6 of
                         Some l6 \<Rightarrow> headline l6
                       | None \<Rightarrow> [])))"
    unfolding main_nth[OF i] by (rule headline_make_article)
qed

theorem headline_priority_witness:
  "map_of (rec_fields (main example_listing ! 0)) (str ''Headline'') = Some (str ''Storm mid'')
   \<and> map_of (rec_fields (main example_listing ! 1)) (str ''Headline'') = Some (str ''Other one'')"
proof -
  have len: "length (main example_listing) = 2" by (simp add: length_main keys_example)
  have i0: "0 < length (main example_listing)" and i1: "1 < length (main example_listing)"
    using len by simp_all
  show ?thesis
    using headline_priority [of example_listing, rule_format, OF i0]
      headline_priority [of example_listing, rule_format, OF i1]
    by (simp add: keys_example processed_example)
qed

text \<open>
  C8. Aggregation merges by slug. There are as many records as distinct slugs among
  the processed files, each slug (the normalised file name) has exactly one record, and
  for a slug and a level stored twice the later entry replaces the earlier one, in the
  aggregated state and in the fields of the record.
\<close>

theorem records_merge_by_slug:
  "length (main listing) = card (set (map fst (processed listing)))
   \<and> distinct (map (\<lambda>r. map_of (rec_fields r) (str ''Slug'')) (main listing))
   \<and> set (map (\<lambda>r. map_of (rec_fields r) (str ''Slug'')) (main listing)) =
       Some ` set (map fst (processed listing))
   \<and> (process_file (fname, doc) = Some (s', l', e) \<longrightarrow> s' = parse_filename fname)
   \<and> levels_of (main_loop [] listing) s l = last_write (processed listing) s l
   \<and> (\<forall>i<length (main listing).
         map_of (rec_fields (main listing ! i)) (str ''Level 1 Text'') =
           Some (case last_write (processed listing)
                       (encounter_order (map fst (processed listing)) ! i) 1 of
                   Some l1 \<Rightarrow> article_text l1 | None \<Rightarrow> []))"
proof -
  have a: "length (main listing) = card (set (map fst (processed listing)))"
    by (simp only: length_main length_encounter_order)
  have b: "distinct (map (\<lambda>r. map_of (rec_fields r) (str ''Slug'')) (main listing))"
    unfolding main_slugs by (simp add: distinct_map distinct_encounter_order)
  have c: "set (map (\<lambda>r. map_of (rec_fields r) (str ''Slug'')) (main listing)) =
       Some ` set (map fst (processed listing))"
    unfolding main_slugs by (simp only: set_map set_encounter_order)
  have d: "process_file (fname, doc) = Some (s', l', e) \<longrightarrow> s' = parse_filename fname"
    using process_file_slug by blast
  have f: "map_of (rec_fields (main listing ! i)) (str ''Level 1 Text'') =
           Some (case last_write (processed listing)
                       (encounter_order (map fst (processed listing)) ! i) 1 of
                   Some l1 \<Rightarrow> article_text l1 | None \<Rightarrow> [])"
    if "i < length (main listing)" for i
  proof -
    have i: "i < length (encounter_order (map fst (processed listing)))"
      using that by (simp add: length_main)
    show ?thesis unfolding main_nth[OF i] by (rule level1_text_make_article)
  qed
  show ?thesis using a b c d f levels_of_main_loop by blast
qed

theorem records_merge_by_slug_witness:
  "length (main example_listing) = 2
   \<and> levels_of (main_loop [] example_listing) (str ''storm-hits'') 1 =
       Some \<lparr>headline = (str ''Storm later''), article_text = (str ''Storm later\<newline>Body later''),
             instruction = [], questions = [], writing_prompt = [],
             filename = (str ''Lvl 1 Storm, hits.docx'')\<rparr>
   \<and> map_of (rec_fields (main example_listing ! 0)) (str ''Level 1 Text'') =
       Some (str ''Storm later\<newline>Body later'')"
proof -
  note t = records_merge_by_slug [of example_listing "(str ''Lvl 1 Other.docx'')" "Some [str ''Other one'']"
      "(str ''other'')" 1 "\<lparr>headline = (str ''Other one''), article_text = (str ''Other one''), instruction = [],
         questions = [], writing_prompt = [], filename = (str ''Lvl 1 Other.docx'')\<rparr>" "(str ''storm-hits'')" 1]
  have "set (map fst (processed example_listing)) = {(str ''storm-hits''), (str ''other'')}"
    by (auto simp: processed_example)
  then have "card (set (map fst (processed example_listing))) = 2" by simp
  then have len: "length (main example_listing) = 2"
    using t [THEN conjunct1] by simp
  then have i0: "0 < length (main example_listing)" by simp
  have lw: "levels_of (main_loop [] example_listing) (str ''storm-hits'') 1 =
      last_write (processed example_listing) (str ''storm-hits'') 1"
    using t by blast
  have f: "map_of (rec_fields (main example_listing ! 0)) (str ''Level 1 Text'') =
           Some (case last_write (processed example_listing)
                       (encounter_order (map fst (processed example_listing)) ! 0) 1 of
                   Some l1 \<Rightarrow> article_text l1 | None \<Rightarrow> [])"
    using t i0 by blast
  show ?thesis using len lw f by (simp add: keys_example processed_example)
qed

end
